theory Spec2Isabelle
  imports Complex_Main
begin

section \<open>The build descriptor \<^verbatim>\<open>setup.py\<close>\<close>

text \<open>
  \<^verbatim>\<open>str.startswith\<close> of Python, on one prefix: the prefix is consumed character by
  character; an exhausted prefix matches, an exhausted string does not.
\<close>

fun startswith :: "string \<Rightarrow> string \<Rightarrow> bool" where
  "startswith s [] = True"
| "startswith [] (p # ps) = False"
| "startswith (c # cs) (p # ps) = (c = p \<and> startswith cs ps)"

text \<open>
  \<^verbatim>\<open>compile_args()\<close> reads the global \<^verbatim>\<open>sys.platform\<close>; the embedding takes it as the
  argument \<open>platform\<close>. The function has two return statements and raises nowhere.
\<close>

definition compile_args :: "string \<Rightarrow> string list" where
  "compile_args platform =
     (if startswith platform ''win'' then [''/O2'', ''/arch:AVX2'']
      else [''-O3'', ''-mavx2'', ''-mfma''])"










section \<open>The vector store\<close>

text \<open>
  \<^verbatim>\<open>setup.py\<close> compiles the store from \<^verbatim>\<open>src/main.cpp\<close> and \<^verbatim>\<open>src/VectorStore.cpp\<close>,
  which are not among the sources. The definitions of this section are therefore
  written from the specification (sections 3, 4, 6, 7 and 8), one definition per
  operation it describes, and each says so.
\<close>

text \<open>Modelled from the spec: the two supported metrics of section 4.2 (the C++
  enumeration is missing).\<close>

datatype metric = L2Squared | Cosine

text \<open>Modelled from the spec: the six error kinds of section 7 (the C++ exception types
  are missing).\<close>

datatype error =
    InvalidDimension | DimensionMismatch | DuplicateIdentifier
  | UnknownIdentifier | InvalidK | UnsupportedMetric

text \<open>
  Modelled from the spec: a row slot of the Vector Buffer (section 3; the C++ buffer is
  missing). \<open>cells\<close> is \<open>None\<close> until the slot is first written, for its memory is
  then indeterminate. \<open>occupied\<close> is the occupancy flag, and \<open>inserted_at\<close> numbers the
  insert that filled the slot: slots are recycled, so the slot number does not give the
  insertion order that breaks ties. The component type \<open>'f\<close> stands for the float.
\<close>

record 'f row_slot =
  cells :: "'f list option"
  occupied :: bool
  inserted_at :: nat

text \<open>
  Modelled from the spec: the store (section 3; the C++ class is missing): the fixed
  dimension, the configured metric, the Vector Buffer as the list of its row slots, the
  count of successful inserts so far (the next insertion number), the Identifier Index
  as its two maps, and the free-list of recyclable slots.
\<close>

record ('id, 'f) vector_store =
  dimension :: nat
  metric :: metric
  slots :: "'f row_slot list"
  insertions :: nat
  slot_of :: "'id \<rightharpoonup> nat"
  id_of :: "nat \<rightharpoonup> 'id"
  free_list :: "nat list"

text \<open>Modelled from the spec: \<^verbatim>\<open>capacity()\<close>, the row slots currently allocated
  (section 4.4; the C++ method is missing).\<close>

definition capacity :: "('id, 'f) vector_store \<Rightarrow> nat" where
  "capacity s = length (slots s)"

text \<open>Modelled from the spec: \<^verbatim>\<open>size()\<close>, the count of occupied rows (section 4.4; the
  C++ method is missing).\<close>

definition size_store :: "('id, 'f) vector_store \<Rightarrow> nat" where
  "size_store s = length (filter occupied (slots s))"

text \<open>Modelled from the spec: the metric names accepted at construction, section 6
  (the C++ parsing of the metric is missing).\<close>

definition parse_metric :: "string \<Rightarrow> metric option" where
  "parse_metric name =
     (if name = ''l2_squared'' then Some L2Squared
      else if name = ''cosine'' then Some Cosine
      else None)"

text \<open>
  Modelled from the spec: construction (sections 4.1, 4.2, 6 and 7; the C++ constructor
  is missing). A non-positive dimension is \<open>InvalidDimension\<close>, an unrecognised metric
  \<open>UnsupportedMetric\<close>; otherwise \<open>initial_capacity\<close> free, unwritten slots are allocated.
\<close>

definition create :: "int \<Rightarrow> string \<Rightarrow> nat \<Rightarrow> error + ('id, 'f) vector_store" where
  "create dim_arg metric_name initial_capacity =
     (if dim_arg \<le> 0 then Inl InvalidDimension
      else case parse_metric metric_name of
        None \<Rightarrow> Inl UnsupportedMetric
      | Some m \<Rightarrow>
          Inr \<lparr>dimension = nat dim_arg, metric = m,
               slots = replicate initial_capacity
                         \<lparr>cells = None, occupied = False, inserted_at = 0\<rparr>,
               insertions = 0, slot_of = Map.empty, id_of = Map.empty,
               free_list = [0..<initial_capacity]\<rparr>)"

text \<open>
  Modelled from the spec: \<^verbatim>\<open>grow(new_capacity)\<close> of section 4.1 (the C++ is missing). The
  rows of the occupied slots are copied, the others are indeterminate again, and the
  slots up to the new capacity are appended unwritten and unoccupied.
\<close>

definition grow :: "('id, 'f) vector_store \<Rightarrow> nat \<Rightarrow> ('id, 'f) vector_store" where
  "grow s new_capacity =
     s\<lparr>slots :=
          map (\<lambda>r. if occupied r then r else r\<lparr>cells := None\<rparr>) (slots s)
          @ replicate (new_capacity - capacity s)
              \<lparr>cells = None, occupied = False, inserted_at = 0\<rparr>\<rparr>"

text \<open>Modelled from the spec: the doubling strategy of section 4.1 (the C++ is missing); a
  buffer of no slots grows to one, since twice nothing would never hold a row.\<close>

definition doubled :: "nat \<Rightarrow> nat" where
  "doubled c = (if c = 0 then 1 else 2 * c)"

text \<open>
  Modelled from the spec: "obtains a free slot (from free-list or buffer growth)",
  section 4.4 (the C++ is missing). The head of the free-list is taken. When the
  free-list is exhausted the buffer grows: the first new slot is taken and the other
  new slots go on the free-list.
\<close>

definition obtain_slot :: "('id, 'f) vector_store \<Rightarrow> nat \<times> ('id, 'f) vector_store" where
  "obtain_slot s =
     (case free_list s of
        slot # rest \<Rightarrow> (slot, s\<lparr>free_list := rest\<rparr>)
      | [] \<Rightarrow>
          (let c = capacity s; s' = grow s (doubled c)
           in (c, s'\<lparr>free_list := [Suc c..<capacity s']\<rparr>)))"

text \<open>Modelled from the spec: \<^verbatim>\<open>write(slot, vector)\<close> of section 4.1, used once the
  dimension has been validated, together with marking the slot occupied and numbering
  the insert (the C++ is missing).\<close>

definition write_row :: "nat \<Rightarrow> 'f list \<Rightarrow> ('id, 'f) vector_store \<Rightarrow> ('id, 'f) vector_store" where
  "write_row slot v s =
     s\<lparr>slots := (slots s)[slot := \<lparr>cells = Some v, occupied = True,
                                   inserted_at = insertions s\<rparr>],
       insertions := Suc (insertions s)\<rparr>"

text \<open>Modelled from the spec: \<^verbatim>\<open>bind(identifier, slot)\<close> of section 4.3 on both
  directions of the Identifier Index, used once the identifier has been found unbound
  (the C++ is missing).\<close>

definition bind :: "'id \<Rightarrow> nat \<Rightarrow> ('id, 'f) vector_store \<Rightarrow> ('id, 'f) vector_store" where
  "bind ident slot s = s\<lparr>slot_of := (slot_of s)(ident \<mapsto> slot), id_of := (id_of s)(slot \<mapsto> ident)\<rparr>"

text \<open>Modelled from the spec: \<^verbatim>\<open>unbind(identifier)\<close> of section 4.3 on both directions
  of the Identifier Index, used once the identifier's slot has been looked up (the C++ is
  missing).\<close>

definition unbind :: "'id \<Rightarrow> nat \<Rightarrow> ('id, 'f) vector_store \<Rightarrow> ('id, 'f) vector_store" where
  "unbind ident slot s = s\<lparr>slot_of := (slot_of s)(ident := None), id_of := (id_of s)(slot := None)\<rparr>"

text \<open>
  Modelled from the spec: \<^verbatim>\<open>insert(identifier, vector)\<close> of section 4.4 (the C++ is
  missing): "validates dimension, obtains a free slot, writes the vector, binds the
  identifier". Both preconditions are validated before any state changes (section 7);
  a failed call returns the store it was given.
\<close>

definition insert_store ::
  "('id, 'f) vector_store \<Rightarrow> 'id \<Rightarrow> 'f list \<Rightarrow> (error + unit) \<times> ('id, 'f) vector_store" where
  "insert_store s ident v =
     (if length v \<noteq> dimension s then (Inl DimensionMismatch, s)
      else if slot_of s ident \<noteq> None then (Inl DuplicateIdentifier, s)
      else (case obtain_slot s of (slot, s') \<Rightarrow> (Inr (), bind ident slot (write_row slot v s'))))"

text \<open>
  Modelled from the spec: \<^verbatim>\<open>remove(identifier)\<close> of section 4.4 (the C++ is missing):
  unbinds the identifier and marks its slot free; the row's cells are not scrubbed.
\<close>

definition remove_store ::
  "('id, 'f) vector_store \<Rightarrow> 'id \<Rightarrow> (error + unit) \<times> ('id, 'f) vector_store" where
  "remove_store s ident =
     (case slot_of s ident of
        None \<Rightarrow> (Inl UnknownIdentifier, s)
      | Some slot \<Rightarrow>
          (Inr (),
           (unbind ident slot s)
             \<lparr>slots := (slots s)[slot := (slots s ! slot)\<lparr>occupied := False\<rparr>],
              free_list := slot # free_list s\<rparr>))"

text \<open>
  Modelled from the spec: a candidate of a query (section 4.4; the C++ is missing): the
  score of a row, the number of the insert that wrote it, and its identifier.
\<close>

record ('id, 's) candidate =
  score :: 's
  order :: nat
  ident_of :: 'id

text \<open>
  Modelled from the spec: the ranking of the Query Result (section 3; the C++ is
  missing): ascending distance for \<open>l2_squared\<close>, descending similarity for \<open>cosine\<close>,
  ties broken by ascending insertion order.
\<close>

definition precedes :: "metric \<Rightarrow> ('id, 's::ord) candidate \<Rightarrow> ('id, 's) candidate \<Rightarrow> bool" where
  "precedes m a b =
     ((case m of L2Squared \<Rightarrow> score a < score b | Cosine \<Rightarrow> score b < score a)
      \<or> (score a = score b \<and> order a < order b))"

text \<open>
  Modelled from the spec: one step of the partial selection of section 4.4 (the C++ is
  missing): a candidate is put at its rank among the best so far, behind the candidates
  it does not precede.
\<close>

fun insert_ranked ::
  "metric \<Rightarrow> ('id, 's::ord) candidate \<Rightarrow> ('id, 's) candidate list \<Rightarrow> ('id, 's) candidate list" where
  "insert_ranked m c [] = [c]"
| "insert_ranked m c (b # bs) =
     (if precedes m c b then c # b # bs else b # insert_ranked m c bs)"

text \<open>
  Modelled from the spec: the reduction to the top k with a buffer of size k (section
  4.4; the C++ is missing): the candidates are taken in scan order, and after each one
  what falls beyond the k-th place is dropped.
\<close>

fun top_k ::
  "metric \<Rightarrow> nat \<Rightarrow> ('id, 's::ord) candidate list \<Rightarrow> ('id, 's) candidate list \<Rightarrow> ('id, 's) candidate list" where
  "top_k m k best [] = best"
| "top_k m k best (c # cs) = top_k m k (take k (insert_ranked m c best)) cs"

text \<open>
  Modelled from the spec: the batched scan "over every occupied row" (section 4.4; the
  C++ is missing). The Distance Kernel's floating-point routines are not modelled:
  \<open>kern\<close> is a parameter, any function from the metric, the query vector and a row to
  a score. The identifier of a row comes from the reverse direction of the index.
\<close>

fun scan ::
  "(metric \<Rightarrow> 'f list \<Rightarrow> 'f list \<Rightarrow> 's) \<Rightarrow> metric \<Rightarrow> (nat \<rightharpoonup> 'id) \<Rightarrow> 'f list \<Rightarrow> nat
     \<Rightarrow> 'f row_slot list \<Rightarrow> ('id, 's) candidate list" where
  "scan kern m ids q slot [] = []"
| "scan kern m ids q slot (r # rs) =
     (case (occupied r, cells r, ids slot) of
        (True, Some v, Some i) \<Rightarrow>
          \<lparr>score = kern m q v, order = inserted_at r, ident_of = i\<rparr>
            # scan kern m ids q (Suc slot) rs
      | _ \<Rightarrow> scan kern m ids q (Suc slot) rs)"

text \<open>
  Modelled from the spec: \<^verbatim>\<open>query(vector, k, metric_override?)\<close> of section 4.4 (the C++
  is missing): validates the dimension, then k, scans, reduces to the top k and returns
  the (identifier, score) pairs in rank order. The store is returned as it was given.
\<close>

definition query ::
  "(metric \<Rightarrow> 'f list \<Rightarrow> 'f list \<Rightarrow> 's::ord) \<Rightarrow> ('id, 'f) vector_store \<Rightarrow> 'f list \<Rightarrow> int
     \<Rightarrow> metric option \<Rightarrow> (error + ('id \<times> 's) list) \<times> ('id, 'f) vector_store" where
  "query kern s q k metric_override =
     (if length q \<noteq> dimension s then (Inl DimensionMismatch, s)
      else if k \<le> 0 then (Inl InvalidK, s)
      else
        (let m = (case metric_override of None \<Rightarrow> metric s | Some m' \<Rightarrow> m')
         in (Inr (map (\<lambda>c. (ident_of c, score c))
                   (top_k m (nat k) [] (scan kern m (id_of s) q 0 (slots s)))), s)))"

text \<open>Modelled from the spec: the three calls of the interface of section 6 that take
  arguments, as values (the C++ binding layer is missing).\<close>

datatype ('id, 'f) operation =
    Insert 'id "'f list"
  | Remove 'id
  | Query "'f list" int "metric option"

text \<open>Modelled from the spec: the state a call leaves, whether it succeeded or failed
  (section 6; the C++ binding layer is missing).\<close>

fun apply_op ::
  "(metric \<Rightarrow> 'f list \<Rightarrow> 'f list \<Rightarrow> 's::ord) \<Rightarrow> ('id, 'f) vector_store \<Rightarrow> ('id, 'f) operation
     \<Rightarrow> ('id, 'f) vector_store" where
  "apply_op kern s (Insert i v) = snd (insert_store s i v)"
| "apply_op kern s (Remove i) = snd (remove_store s i)"
| "apply_op kern s (Query q k ov) = snd (query kern s q k ov)"

text \<open>Modelled from the spec: a sequence of calls made from left to right on a store,
  each on the state the one before it left (section 5: calls are synchronous and run to
  completion; the C++ binding layer is missing).\<close>

fun run ::
  "(metric \<Rightarrow> 'f list \<Rightarrow> 'f list \<Rightarrow> 's::ord) \<Rightarrow> ('id, 'f) vector_store \<Rightarrow> ('id, 'f) operation list
     \<Rightarrow> ('id, 'f) vector_store" where
  "run kern s [] = s"
| "run kern s (op # ops) = run kern (apply_op kern s op) ops"

text \<open>
  An exact scoring function on integer vectors, for running the model on concrete inputs: the
  squared Euclidean distance, and the plain dot product in place of the cosine.
\<close>

definition int_kernel :: "metric \<Rightarrow> int list \<Rightarrow> int list \<Rightarrow> int" where
  "int_kernel m q v =
     (case m of
        L2Squared \<Rightarrow> sum_list (map (\<lambda>(a, b). (a - b) * (a - b)) (zip q v))
      | Cosine \<Rightarrow> sum_list (map (\<lambda>(a, b). a * b) (zip q v)))"

text \<open>
  The invariant of the Identifier Index as section 3 words it: every occupied row slot
  has exactly one identifier mapped to it, every mapped identifier refers to exactly one
  occupied row slot, and the two directions of the index agree.
\<close>

definition index_bijection :: "('id, 'f) vector_store \<Rightarrow> bool" where
  "index_bijection s \<longleftrightarrow>
     (\<forall>slot. slot < capacity s \<and> occupied (slots s ! slot) \<longrightarrow> (\<exists>!i. slot_of s i = Some slot))
     \<and> (\<forall>i. i \<in> dom (slot_of s) \<longrightarrow>
           (\<exists>!slot. slot_of s i = Some slot \<and> slot < capacity s \<and> occupied (slots s ! slot)))
     \<and> (\<forall>i slot. id_of s slot = Some i \<longleftrightarrow> slot_of s i = Some slot)"

text \<open>
  The invariant the operations maintain, from which the bijection follows: the two
  directions agree, the slots with an identifier are the occupied ones, and the free-list
  names unoccupied slots, each once.
\<close>

definition store_inv :: "('id, 'f) vector_store \<Rightarrow> bool" where
  "store_inv s \<longleftrightarrow>
     (\<forall>i slot. slot_of s i = Some slot \<longleftrightarrow> id_of s slot = Some i)
     \<and> (\<forall>slot. slot \<in> dom (id_of s) \<longleftrightarrow> slot < capacity s \<and> occupied (slots s ! slot))
     \<and> distinct (free_list s)
     \<and> (\<forall>slot \<in> set (free_list s). slot < capacity s \<and> \<not> occupied (slots s ! slot))"

text \<open>The store that \<^verbatim>\<open>create(2, "l2_squared", 1)\<close> returns, on integer vectors and
  integer identifiers.\<close>

definition example_store :: "(int, int) vector_store" where
  "example_store =
     \<lparr>dimension = 2, metric = L2Squared,
      slots = [\<lparr>cells = None, occupied = False, inserted_at = 0\<rparr>],
      insertions = 0, slot_of = Map.empty, id_of = Map.empty, free_list = [0]\<rparr>"







section \<open>Properties of the vector store\<close>

lemma doubled_gt: "c < doubled c"
  by (simp add: doubled_def)

lemma capacity_grow: "capacity (grow s n) = capacity s + (n - capacity s)"
  by (simp add: grow_def capacity_def)

lemma occupied_grow_old:
  "slot < capacity s \<Longrightarrow> occupied (slots (grow s n) ! slot) = occupied (slots s ! slot)"
  by (simp add: grow_def capacity_def nth_append)

lemma occupied_grow_new:
  "capacity s \<le> slot \<Longrightarrow> slot < capacity (grow s n) \<Longrightarrow> \<not> occupied (slots (grow s n) ! slot)"
  by (simp add: grow_def capacity_def nth_append)

lemma grow_index: "slot_of (grow s n) = slot_of s" "id_of (grow s n) = id_of s"
  by (simp_all add: grow_def)

lemma obtain_slot_Nil:
  "free_list s = [] \<Longrightarrow>
   obtain_slot s = (capacity s, (grow s (doubled (capacity s)))
      \<lparr>free_list := [Suc (capacity s)..<capacity (grow s (doubled (capacity s)))]\<rparr>)"
  by (simp add: obtain_slot_def Let_def)

lemma obtain_slot_Cons:
  "free_list s = a # rest \<Longrightarrow> obtain_slot s = (a, s\<lparr>free_list := rest\<rparr>)"
  by (simp add: obtain_slot_def)

lemma create_Inr:
  "create d m c = Inr s \<Longrightarrow>
   slots s = replicate c \<lparr>cells = None, occupied = False, inserted_at = 0\<rparr>
   \<and> slot_of s = Map.empty \<and> id_of s = Map.empty \<and> free_list s = [0..<c]"
  by (cases "parse_metric m") (auto simp: create_def split: if_splits)

lemma store_inv_create:
  assumes "create d m c = Inr s"
  shows "store_inv s"
  using create_Inr [OF assms] by (simp add: store_inv_def capacity_def)

lemma store_inv_index_bijection:
  assumes "store_inv s"
  shows "index_bijection s"
proof -
  from assms have A: "\<And>i slot. slot_of s i = Some slot \<longleftrightarrow> id_of s slot = Some i"
    and B: "\<And>slot. slot \<in> dom (id_of s) \<longleftrightarrow> slot < capacity s \<and> occupied (slots s ! slot)"
    by (simp_all add: store_inv_def)
  have 1: "\<exists>!i. slot_of s i = Some slot" if "slot < capacity s \<and> occupied (slots s ! slot)" for slot
  proof -
    from that B obtain i where "id_of s slot = Some i" by blast
    then show ?thesis using A by auto
  qed
  have 2: "\<exists>!slot. slot_of s i = Some slot \<and> slot < capacity s \<and> occupied (slots s ! slot)"
    if "i \<in> dom (slot_of s)" for i
  proof -
    from that obtain slot where i: "slot_of s i = Some slot" by blast
    then have "id_of s slot = Some i" using A by simp
    then have "slot < capacity s \<and> occupied (slots s ! slot)" using B by blast
    with i show ?thesis by auto
  qed
  show ?thesis unfolding index_bijection_def using 1 2 A by blast
qed

lemma store_inv_obtain_slot:
  assumes inv: "store_inv s" and ob: "obtain_slot s = (slot, s')"
  shows "slot_of s' = slot_of s \<and> id_of s' = id_of s
         \<and> capacity s \<le> capacity s' \<and> slot < capacity s'
         \<and> \<not> occupied (slots s' ! slot)
         \<and> (\<forall>n < capacity s. occupied (slots s' ! n) = occupied (slots s ! n))
         \<and> (\<forall>n. capacity s \<le> n \<and> n < capacity s' \<longrightarrow> \<not> occupied (slots s' ! n))
         \<and> distinct (free_list s') \<and> slot \<notin> set (free_list s')
         \<and> (\<forall>n \<in> set (free_list s'). n < capacity s' \<and> \<not> occupied (slots s' ! n))"
proof (cases "free_list s")
  case Nil
  let ?g = "grow s (doubled (capacity s))"
  have "(slot, s') = (capacity s, ?g\<lparr>free_list := [Suc (capacity s)..<capacity ?g]\<rparr>)"
    by (rule trans [OF ob [symmetric] obtain_slot_Nil [OF Nil]])
  then have slot: "slot = capacity s" and s': "s' = ?g\<lparr>free_list := [Suc (capacity s)..<capacity ?g]\<rparr>"
    by blast+
  have cap: "capacity s' = capacity ?g" by (simp add: s' capacity_def)
  have sl: "slots s' = slots ?g" by (simp add: s')
  have gt: "capacity s < capacity ?g"
    using doubled_gt [of "capacity s"] by (simp add: capacity_grow)
  show ?thesis
    unfolding cap sl slot
    using gt occupied_grow_old [of _ s "doubled (capacity s)"]
      occupied_grow_new [of s _ "doubled (capacity s)"]
    by (simp add: s' grow_index)
next
  case (Cons a rest)
  have "(slot, s') = (a, s\<lparr>free_list := rest\<rparr>)"
    by (rule trans [OF ob [symmetric] obtain_slot_Cons [OF Cons]])
  then have slot: "slot = a" and s': "s' = s\<lparr>free_list := rest\<rparr>"
    by blast+
  from inv Cons have "distinct (a # rest)"
    and "\<forall>n \<in> set (a # rest). n < capacity s \<and> \<not> occupied (slots s ! n)"
    by (simp_all add: store_inv_def)
  then show ?thesis
    by (auto simp: s' slot capacity_def)
qed


lemma store_inv_insert:
  assumes inv: "store_inv s" and ins: "insert_store s i v = (Inr (), s1)"
  shows "store_inv s1"
proof -
  obtain slot s' where ob: "obtain_slot s = (slot, s')" by (cases "obtain_slot s")
  from ins ob have fresh: "slot_of s i = None" and s1: "s1 = bind i slot (write_row slot v s')"
    by (auto simp: insert_store_def split: if_splits)
  note O = store_inv_obtain_slot [OF inv ob]
  from inv have A: "\<And>j n. slot_of s j = Some n \<longleftrightarrow> id_of s n = Some j"
    and B: "\<And>n. n \<in> dom (id_of s) \<longleftrightarrow> n < capacity s \<and> occupied (slots s ! n)"
    by (simp_all add: store_inv_def)
  have sl: "slots s1 = (slots s')[slot := \<lparr>cells = Some v, occupied = True, inserted_at = insertions s'\<rparr>]"
    and so: "slot_of s1 = (slot_of s)(i \<mapsto> slot)" and io: "id_of s1 = (id_of s)(slot \<mapsto> i)"
    and fl: "free_list s1 = free_list s'" and cap: "capacity s1 = capacity s'"
    using O by (simp_all add: s1 bind_def write_row_def capacity_def)
  have nodom: "slot \<notin> dom (id_of s)"
  proof
    assume "slot \<in> dom (id_of s)"
    then have "slot < capacity s \<and> occupied (slots s ! slot)" using B by simp
    then show False using O by blast
  qed
  have occ: "occupied (slots s1 ! n) \<longleftrightarrow> n = slot \<or> occupied (slots s' ! n)" if "n < capacity s'" for n
    using that by (cases "n = slot") (simp_all add: sl capacity_def)
  have 1: "slot_of s1 j = Some n \<longleftrightarrow> id_of s1 n = Some j" for j n
    using A [of j n] fresh nodom by (auto simp: so io)
  have 2: "n \<in> dom (id_of s1) \<longleftrightarrow> n < capacity s1 \<and> occupied (slots s1 ! n)" for n
  proof (cases "n = slot")
    case True
    then show ?thesis using O occ [of slot] by (simp add: io cap)
  next
    case False
    show ?thesis
    proof (cases "n < capacity s")
      case True
      then have "n < capacity s'" using O by simp
      then show ?thesis using False True O B [of n] occ [of n] by (simp add: io cap)
    next
      case ge: False
      then have "n \<notin> dom (id_of s)" using B [of n] by simp
      moreover have "\<not> (n < capacity s' \<and> occupied (slots s' ! n))" using ge O by auto
      ultimately show ?thesis using False occ [of n] by (auto simp: io cap)
    qed
  qed
  have 3: "distinct (free_list s1)" using O by (simp add: fl)
  have 4: "\<forall>n \<in> set (free_list s1). n < capacity s1 \<and> \<not> occupied (slots s1 ! n)"
  proof
    fix n assume n: "n \<in> set (free_list s1)"
    then have "n < capacity s' \<and> \<not> occupied (slots s' ! n)" and "n \<noteq> slot"
      using O by (auto simp: fl)
    then show "n < capacity s1 \<and> \<not> occupied (slots s1 ! n)" using occ [of n] by (simp add: cap)
  qed
  show ?thesis unfolding store_inv_def using 1 2 3 4 by blast
qed

lemma remove_store_Inr:
  assumes "remove_store s i = (Inr (), s1)"
  obtains slot where "slot_of s i = Some slot"
    and "s1 = (unbind i slot s)\<lparr>slots := (slots s)[slot := (slots s ! slot)\<lparr>occupied := False\<rparr>],
                                 free_list := slot # free_list s\<rparr>"
  using assms by (cases "slot_of s i") (auto simp: remove_store_def)

lemma store_inv_remove:
  assumes inv: "store_inv s" and rm: "remove_store s i = (Inr (), s1)"
  shows "store_inv s1"
proof -
  from rm obtain slot where i: "slot_of s i = Some slot"
    and s1: "s1 = (unbind i slot s)\<lparr>slots := (slots s)[slot := (slots s ! slot)\<lparr>occupied := False\<rparr>],
                                     free_list := slot # free_list s\<rparr>"
    by (rule remove_store_Inr)
  from inv have A: "\<And>j n. slot_of s j = Some n \<longleftrightarrow> id_of s n = Some j"
    and B: "\<And>n. n \<in> dom (id_of s) \<longleftrightarrow> n < capacity s \<and> occupied (slots s ! n)"
    and C: "distinct (free_list s)"
    and D: "\<And>n. n \<in> set (free_list s) \<Longrightarrow> n < capacity s \<and> \<not> occupied (slots s ! n)"
    by (simp_all add: store_inv_def)
  have so: "slot_of s1 = (slot_of s)(i := None)" and io: "id_of s1 = (id_of s)(slot := None)"
    and fl: "free_list s1 = slot # free_list s" and cap: "capacity s1 = capacity s"
    and sl: "slots s1 = (slots s)[slot := (slots s ! slot)\<lparr>occupied := False\<rparr>]"
    by (simp_all add: s1 unbind_def capacity_def)
  from i A have islot: "id_of s slot = Some i" by simp
  with B [of slot] have slot: "slot < capacity s" "occupied (slots s ! slot)" by auto
  have occ: "occupied (slots s1 ! n) \<longleftrightarrow> n \<noteq> slot \<and> occupied (slots s ! n)" if "n < capacity s" for n
    using that by (cases "n = slot") (simp_all add: sl capacity_def)
  have 1: "slot_of s1 j = Some n \<longleftrightarrow> id_of s1 n = Some j" for j n
    using A [of j n] A [of j slot] A [of i n] i by (auto simp: so io)
  have 2: "n \<in> dom (id_of s1) \<longleftrightarrow> n < capacity s1 \<and> occupied (slots s1 ! n)" for n
  proof (cases "n < capacity s")
    case True
    then show ?thesis using B [of n] occ [of n] by (auto simp: io cap)
  next
    case False
    then show ?thesis using B [of n] by (auto simp: io cap)
  qed
  have 3: "distinct (free_list s1)" using C D [of slot] slot by (auto simp: fl)
  have 4: "\<forall>n \<in> set (free_list s1). n < capacity s1 \<and> \<not> occupied (slots s1 ! n)"
  proof
    fix n assume "n \<in> set (free_list s1)"
    then consider "n = slot" | "n \<in> set (free_list s)" by (auto simp: fl)
    then show "n < capacity s1 \<and> \<not> occupied (slots s1 ! n)"
    proof cases
      case 1
      then show ?thesis using slot occ [of slot] by (simp add: cap)
    next
      case 2
      then show ?thesis using D [of n] occ [of n] by (simp add: cap)
    qed
  qed
  show ?thesis unfolding store_inv_def using 1 2 3 4 by blast
qed

lemma insert_store_failed: "insert_store s i v = (Inl e, s1) \<Longrightarrow> s1 = s"
  by (auto simp: insert_store_def split: if_splits prod.splits)

lemma remove_store_failed: "remove_store s i = (Inl e, s1) \<Longrightarrow> s1 = s"
  by (auto simp: remove_store_def split: option.splits)

lemma query_state: "snd (query kern s q k ov) = s"
  by (simp add: query_def Let_def)

lemma store_inv_apply_op:
  assumes "store_inv s"
  shows "store_inv (apply_op kern s op)"
proof (cases op)
  case (Insert i v)
  obtain r s1 where r: "insert_store s i v = (r, s1)" by (cases "insert_store s i v")
  show ?thesis
  proof (cases r)
    case (Inl e)
    with r have "s1 = s" by (simp add: insert_store_failed)
    with assms r Insert show ?thesis by simp
  next
    case (Inr u)
    with r assms Insert show ?thesis by (simp add: store_inv_insert)
  qed
next
  case (Remove i)
  obtain r s1 where r: "remove_store s i = (r, s1)" by (cases "remove_store s i")
  show ?thesis
  proof (cases r)
    case (Inl e)
    with r have "s1 = s" by (simp add: remove_store_failed)
    with assms r Remove show ?thesis by simp
  next
    case (Inr u)
    with r assms Remove show ?thesis by (simp add: store_inv_remove)
  qed
next
  case (Query q k ov)
  with assms show ?thesis by (simp add: query_state)
qed

lemma store_inv_run: "store_inv s \<Longrightarrow> store_inv (run kern s ops)"
  by (induction ops arbitrary: s) (simp_all add: store_inv_apply_op)

lemma scan_ident:
  "c \<in> set (scan kern m ids q n rs) \<Longrightarrow> \<exists>slot. ids slot = Some (ident_of c)"
proof (induction rs arbitrary: n)
  case Nil
  then show ?case by simp
next
  case (Cons r rs)
  then show ?case
    by (auto split: bool.splits option.splits)
qed

lemma set_insert_ranked: "set (insert_ranked m c bs) = insert c (set bs)"
  by (induction bs) auto

lemma set_top_k: "set (top_k m k best cs) \<subseteq> set best \<union> set cs"
proof (induction cs arbitrary: best)
  case Nil
  then show ?case by simp
next
  case (Cons c cs)
  have "set (take k (insert_ranked m c best)) \<subseteq> insert c (set best)"
    using set_take_subset [of k "insert_ranked m c best"] by (simp add: set_insert_ranked)
  with Cons [of "take k (insert_ranked m c best)"] show ?case by auto
qed

lemma query_idents:
  assumes "fst (query kern s q k ov) = Inr res" and "i \<in> fst ` set res"
  shows "\<exists>slot. id_of s slot = Some i"
proof -
  define m where "m = (case ov of None \<Rightarrow> metric s | Some m' \<Rightarrow> m')"
  from assms(1) have res: "res = map (\<lambda>c. (ident_of c, score c))
      (top_k m (nat k) [] (scan kern m (id_of s) q 0 (slots s)))"
    by (auto simp: query_def Let_def m_def split: if_splits)
  with assms(2) obtain c where "c \<in> set (top_k m (nat k) [] (scan kern m (id_of s) q 0 (slots s)))"
    and "ident_of c = i" by auto
  with set_top_k [of m "nat k" "[]" "scan kern m (id_of s) q 0 (slots s)"]
  have "c \<in> set (scan kern m (id_of s) q 0 (slots s))" by auto
  with scan_ident [of c kern m "id_of s" q 0 "slots s"] \<open>ident_of c = i\<close>
  show ?thesis by simp
qed

lemma insert_store_slot_of_other:
  assumes "j \<noteq> i"
  shows "slot_of (snd (insert_store s j v)) i = slot_of s i"
proof -
  obtain slot s' where ob: "obtain_slot s = (slot, s')" by (cases "obtain_slot s")
  have "slot_of s' = slot_of s"
    using ob by (auto simp: obtain_slot_def grow_def Let_def split: list.splits)
  with ob assms show ?thesis
    by (simp add: insert_store_def bind_def write_row_def)
qed

lemma remove_store_slot_of_None:
  "slot_of s i = None \<Longrightarrow> slot_of (snd (remove_store s j)) i = None"
  by (cases "slot_of s j") (simp_all add: remove_store_def unbind_def)

lemma absent_apply_op:
  assumes "slot_of s i = None" and "\<forall>v. op \<noteq> Insert i v"
  shows "slot_of (apply_op kern s op) i = None"
proof (cases op)
  case (Insert j v)
  with assms(2) have "j \<noteq> i" by auto
  with assms(1) Insert show ?thesis by (simp add: insert_store_slot_of_other)
next
  case (Remove j)
  with assms(1) show ?thesis by (simp add: remove_store_slot_of_None)
next
  case (Query q k ov)
  with assms(1) show ?thesis by (simp add: query_state)
qed

lemma absent_run:
  "slot_of s i = None \<Longrightarrow> \<forall>v. Insert i v \<notin> set ops \<Longrightarrow> slot_of (run kern s ops) i = None"
proof (induction ops arbitrary: s)
  case Nil
  then show ?case by simp
next
  case (Cons op ops)
  from Cons.prems have "\<forall>v. op \<noteq> Insert i v" by auto
  with Cons.prems(1) have "slot_of (apply_op kern s op) i = None" by (rule absent_apply_op)
  moreover from Cons.prems have "\<forall>v. Insert i v \<notin> set ops" by auto
  ultimately show ?case using Cons.IH by simp
qed

lemma remove_store_absent:
  "slot_of s i = None \<Longrightarrow> remove_store s i = (Inl UnknownIdentifier, s)"
  by (simp add: remove_store_def)

lemma remove_store_unbinds:
  "remove_store s i = (Inr (), s1) \<Longrightarrow> slot_of s1 i = None"
  by (erule remove_store_Inr) (simp add: unbind_def)

lemma store_inv_id_of:
  assumes "store_inv s" and "id_of s slot = Some i"
  shows "slot_of s i = Some slot"
proof -
  from assms(1) have "\<And>j n. slot_of s j = Some n \<longleftrightarrow> id_of s n = Some j"
    unfolding store_inv_def by blast
  with assms(2) show ?thesis by blast
qed

lemma query_absent:
  assumes inv: "store_inv s" and gone: "slot_of s i = None"
    and res: "fst (query kern s q k ov) = Inr res"
  shows "i \<notin> fst ` set res"
proof
  assume "i \<in> fst ` set res"
  with res have "\<exists>slot. id_of s slot = Some i" by (rule query_idents)
  then obtain slot where "id_of s slot = Some i" ..
  with inv have "slot_of s i = Some slot" by (rule store_inv_id_of)
  with gone show False by simp
qed


lemma example_create: "create 2 ''l2_squared'' 1 = Inr example_store"
  by (simp add: create_def parse_metric_def example_store_def)

lemmas store_defs = insert_store_def remove_store_def query_def obtain_slot_def grow_def
  doubled_def write_row_def bind_def unbind_def capacity_def Let_def example_store_def
  int_kernel_def precedes_def

text \<open>
  Claim C4. Once \<^verbatim>\<open>remove(i)\<close> has succeeded on a reachable store, no query made
  afterwards returns \<open>i\<close>, whatever its vector, its k and the calls made in between, as
  long as none of them inserts \<open>i\<close> again; and removing \<open>i\<close> once more fails with
  \<open>UnknownIdentifier\<close> and returns the store as it was. Removing an identifier that is
  not in the index fails with \<open>UnknownIdentifier\<close> in any store, and \<^verbatim>\<open>size()\<close> is
  unchanged.
\<close>

theorem remove_then_query:
  assumes "create d m c = Inr s0"
  shows
    "(remove_store (run kern s0 ops) i = (Inr (), s1) \<and> (\<forall>v. Insert i v \<notin> set ops') \<longrightarrow>
        (\<forall>res. fst (query kern (run kern s1 ops') q k ov) = Inr res \<longrightarrow> i \<notin> fst ` set res)
        \<and> remove_store (run kern s1 ops') i = (Inl UnknownIdentifier, run kern s1 ops'))
     \<and> (slot_of s i = None \<longrightarrow>
          remove_store s i = (Inl UnknownIdentifier, s)
          \<and> size_store (snd (remove_store s i)) = size_store s)"
proof (intro conjI impI allI)
  assume "remove_store (run kern s0 ops) i = (Inr (), s1) \<and> (\<forall>v. Insert i v \<notin> set ops')"
  then have rm: "remove_store (run kern s0 ops) i = (Inr (), s1)"
    and no: "\<forall>v. Insert i v \<notin> set ops'" by blast+
  let ?s2 = "run kern s1 ops'"
  have "store_inv s0" using assms by (rule store_inv_create)
  then have "store_inv (run kern s0 ops)" by (rule store_inv_run)
  then have "store_inv s1" using rm by (rule store_inv_remove)
  then have inv2: "store_inv ?s2" by (rule store_inv_run)
  from rm have "slot_of s1 i = None" by (rule remove_store_unbinds)
  then have gone: "slot_of ?s2 i = None" using no by (rule absent_run)
  then show "remove_store ?s2 i = (Inl UnknownIdentifier, ?s2)" by (rule remove_store_absent)
  fix res assume "fst (query kern ?s2 q k ov) = Inr res"
  with inv2 gone show "i \<notin> fst ` set res" by (rule query_absent)
next
  assume "slot_of s i = None"
  then have r: "remove_store s i = (Inl UnknownIdentifier, s)" by (rule remove_store_absent)
  then show "remove_store s i = (Inl UnknownIdentifier, s)" .
  from r show "size_store (snd (remove_store s i)) = size_store s" by simp
qed

theorem remove_then_query_witness:
  "create 2 ''l2_squared'' 1 = Inr example_store
   \<and> fst (remove_store (run int_kernel example_store [Insert 1 [0, 0], Insert 2 [1, 1]]) 1)
       = Inr ()
   \<and> fst (query int_kernel
         (run int_kernel
            (snd (remove_store (run int_kernel example_store [Insert 1 [0, 0], Insert 2 [1, 1]]) 1))
            [Insert 3 [0, 0], Query [1, 1] 1 None])
         [0, 0] 2 None) = Inr [(3, 0), (2, 2)]
   \<and> (1::int) \<notin> fst ` set [(3, 0::int), (2, 2)]
   \<and> fst (remove_store
         (run int_kernel
            (snd (remove_store (run int_kernel example_store [Insert 1 [0, 0], Insert 2 [1, 1]]) 1))
            [Insert 3 [0, 0], Query [1, 1] 1 None]) 1) = Inl UnknownIdentifier
   \<and> slot_of example_store 1 = None
   \<and> remove_store example_store 1 = (Inl UnknownIdentifier, example_store)"
proof -
  let ?s = "run int_kernel example_store [Insert 1 [0, 0], Insert 2 [1, 1]]"
  let ?ops' = "[Insert 3 [0, 0], Query [1, 1] 1 None] :: (int, int) operation list"
  have rm: "fst (remove_store ?s 1) = Inr ()"
    by (simp add: store_defs)
  then have rm': "remove_store ?s 1 = (Inr (), snd (remove_store ?s 1))"
    by (simp add: prod_eq_iff)
  have no: "\<forall>v. Insert 1 v \<notin> set ?ops'" by simp
  have q: "fst (query int_kernel (run int_kernel (snd (remove_store ?s 1)) ?ops') [0, 0] 2 None)
      = Inr [(3, 0), (2, 2)]"
    by (simp add: store_defs)
  have absent: "slot_of example_store 1 = None" by (simp add: example_store_def)
  note T = remove_then_query [OF example_create, of int_kernel "[Insert 1 [0, 0], Insert 2 [1, 1]]"
      1 "snd (remove_store ?s 1)" ?ops' "[0, 0]" 2 None example_store]
  from T rm' no q have "(1::int) \<notin> fst ` set [(3, 0::int), (2, 2)]" by blast
  moreover from T rm' no
  have "fst (remove_store (run int_kernel (snd (remove_store ?s 1)) ?ops') 1) = Inl UnknownIdentifier"
    by simp
  moreover from T absent
  have "remove_store example_store 1 = (Inl UnknownIdentifier, example_store)" by blast
  ultimately show ?thesis using example_create rm q absent by blast
qed

text \<open>
  Claim C7. In every state a store reaches from its construction by any sequence of
  \<^verbatim>\<open>insert\<close>, \<^verbatim>\<open>remove\<close> and \<^verbatim>\<open>query\<close> calls, successful or failed, the Identifier
  Index is a bijection between the mapped identifiers and the occupied row slots.
\<close>

theorem index_bijection_reachable:
  assumes "create d m c = Inr s0"
  shows "index_bijection (run kern s0 ops)"
proof -
  have "store_inv s0" using assms by (rule store_inv_create)
  then have "store_inv (run kern s0 ops)" by (rule store_inv_run)
  then show ?thesis by (rule store_inv_index_bijection)
qed

theorem index_bijection_reachable_witness:
  "create 2 ''l2_squared'' 1 = Inr example_store
   \<and> index_bijection (run int_kernel example_store
        [Insert 1 [0, 0], Insert 2 [1, 1], Remove 1, Query [0, 0] 1 None, Insert 3 [2, 2]])
   \<and> slot_of (run int_kernel example_store
        [Insert 1 [0, 0], Insert 2 [1, 1], Remove 1, Query [0, 0] 1 None, Insert 3 [2, 2]]) 3
      = Some 0"
proof (intro conjI)
  show "create 2 ''l2_squared'' 1 = Inr example_store" by (rule example_create)
  show "index_bijection (run int_kernel example_store
        [Insert 1 [0, 0], Insert 2 [1, 1], Remove 1, Query [0, 0] 1 None, Insert 3 [2, 2]])"
    by (rule index_bijection_reachable [OF example_create])
  show "slot_of (run int_kernel example_store
        [Insert 1 [0, 0], Insert 2 [1, 1], Remove 1, Query [0, 0] 1 None, Insert 3 [2, 2]]) 3
      = Some 0"
    by (simp add: store_defs)
qed

section \<open>Properties of the distance kernel and of the ranking\<close>




























section \<open>Properties of the build descriptor\<close>

lemma startswith_iff_append: "startswith s p \<longleftrightarrow> (\<exists>r. s = p @ r)"
  by (induction s p rule: startswith.induct) auto

text \<open>
  Claim C8. On every platform whose name does not start with \<^verbatim>\<open>win\<close> the flag list
  contains \<^verbatim>\<open>-mavx2\<close> and \<^verbatim>\<open>-mfma\<close>; on every platform whose name starts with
  \<^verbatim>\<open>win\<close> it contains the MSVC flag \<^verbatim>\<open>/arch:AVX2\<close> (and only MSVC-style flags, each
  opening with a slash).
\<close>

theorem compile_args_enables_avx2:
  "(\<not> startswith platform ''win'' \<longrightarrow>
      ''-mavx2'' \<in> set (compile_args platform) \<and> ''-mfma'' \<in> set (compile_args platform))
   \<and> (startswith platform ''win'' \<longrightarrow>
      ''/arch:AVX2'' \<in> set (compile_args platform)
      \<and> (\<forall>f \<in> set (compile_args platform). startswith f ''/''))"
  by (simp add: compile_args_def)

theorem compile_args_enables_avx2_witness:
  "\<not> startswith ''linux'' ''win'' \<and> ''-mavx2'' \<in> set (compile_args ''linux'')
   \<and> ''-mfma'' \<in> set (compile_args ''linux'')
   \<and> startswith ''win32'' ''win'' \<and> ''/arch:AVX2'' \<in> set (compile_args ''win32'')
   \<and> startswith ''/O2'' ''/''"
  using compile_args_enables_avx2 [of "''linux''"] compile_args_enables_avx2 [of "''win32''"]
  by (simp add: compile_args_def)

text \<open>
  Claim C9. \<^verbatim>\<open>compile_args\<close> is a total function of the platform name alone and returns
  one of two fixed lists: \<^verbatim>\<open>["/O2", "/arch:AVX2"]\<close> exactly when the name starts with
  \<^verbatim>\<open>win\<close>, \<^verbatim>\<open>["-O3", "-mavx2", "-mfma"]\<close> otherwise; the Windows list does not hold
  the FMA flag \<^verbatim>\<open>-mfma\<close>.
\<close>

theorem compile_args_two_lists:
  "(compile_args platform = [''/O2'', ''/arch:AVX2''] \<longleftrightarrow> startswith platform ''win'')
   \<and> (compile_args platform = [''-O3'', ''-mavx2'', ''-mfma''] \<longleftrightarrow> \<not> startswith platform ''win'')
   \<and> (startswith platform ''win'' \<longrightarrow> ''-mfma'' \<notin> set (compile_args platform))"
  by (simp add: compile_args_def)

theorem compile_args_two_lists_witness:
  "startswith ''win32'' ''win'' \<and> compile_args ''win32'' = [''/O2'', ''/arch:AVX2'']
   \<and> ''-mfma'' \<notin> set (compile_args ''win32'')
   \<and> \<not> startswith ''darwin'' ''win'' \<and> compile_args ''darwin'' = [''-O3'', ''-mavx2'', ''-mfma'']"
  using compile_args_two_lists [of "''win32''"] compile_args_two_lists [of "''darwin''"]
  by simp




end
